theory Spec2Isabelle
  imports Main "HOL-Library.AList"
begin

section \<open>Moostaka: the route matching of \<open>src/moostaka.js\<close>\<close>

text \<open>
  The development embeds the routing part of the class \<open>Moostaka\<close>: the method
  \<open>navigate\<close> (lines 68 to 128), the method \<open>route\<close> (lines 237 to 239) and the
  function \<open>lowerCase\<close> (lines 242 to 247). Rendering (\<open>render\<close>, \<open>getHtml\<close>) and
  the event hooks of the constructor are not part of it.

  Conventions of the embedding:
  \<^item> a JavaScript string is a \<open>string\<close>, the list of its code units, a \<open>char\<close> being
    a code unit below 256 (Basic Latin and Latin-1 Supplement); \<open>toLowerCase\<close> maps
    every upper case letter of that range to its lower case letter;
  \<^item> a value that may be absent (an array read past the end, a call without argument)
    is a \<open>jsval\<close>: \<open>Undefined\<close> or \<open>Str s\<close>;
  \<^item> a method call on \<open>undefined\<close> throws a \<open>TypeError\<close>: it is the value
    \<open>Inl TypeError\<close> of a result type \<open>error + 'a\<close>;
  \<^item> a handler is an opaque value of type \<open>'h\<close>; calling it, calling the
    \<open>onnavigate\<close> hook and calling \<open>history.pushState\<close> are recorded, in order,
    in the list of effects that \<open>navigate\<close> returns;
  \<^item> the object \<open>params\<close> is the association list of its own properties; an
    assignment \<open>params[k] = v\<close> is \<open>assign_param\<close>, and the theorems read the
    object through \<open>map_of\<close> only;
  \<^item> a pattern that is not a string is given to \<open>String.prototype.match\<close>; it is
    represented by the predicate telling on which strings the match succeeds, and the
    call itself is taken not to throw;
  \<^item> \<open>pathname\<close> is a string or absent and \<open>defaultRoute\<close> is a string, as the
    comments of the source say.
\<close>

subsection \<open>Values, errors and string primitives\<close>

datatype jsval = Undefined | Str string

datatype error = TypeError

text \<open>Truthiness, as tested by \<open>if(value)\<close> and \<open>!pathname\<close>.\<close>

fun truthy :: "jsval \<Rightarrow> bool" where
  "truthy Undefined = False"
| "truthy (Str s) = (s \<noteq> [])"

text \<open>\<open>s.split(sep)\<close> for a separator of one character: never an empty array.\<close>

fun split_on :: "char \<Rightarrow> string \<Rightarrow> string list" where
  "split_on sep [] = [[]]"
| "split_on sep (c # cs) =
     (if c = sep then [] # split_on sep cs
      else (case split_on sep cs of
              [] \<Rightarrow> [[c]]
            | w # ws \<Rightarrow> (c # w) # ws))"

text \<open>
  \<open>xs.join(sep)\<close>, the inverse of \<open>split\<close>. The source does not call it; it states
  what the segments of a split are.
\<close>

fun join_on :: "char \<Rightarrow> string list \<Rightarrow> string" where
  "join_on sep [] = []"
| "join_on sep [w] = w"
| "join_on sep (w # v # ws) = w @ sep # join_on sep (v # ws)"

text \<open>\<open>s.substring(a, b)\<close> (the two indices are swapped when \<open>a > b\<close>) and \<open>s.substring(a)\<close>.\<close>

definition substring :: "string \<Rightarrow> nat \<Rightarrow> nat \<Rightarrow> string" where
  "substring s a b = take (max a b - min a b) (drop (min a b) s)"

definition substring_from :: "string \<Rightarrow> nat \<Rightarrow> string" where
  "substring_from s a = drop a s"

text \<open>An array read \<open>xs[i]\<close>: \<open>undefined\<close> past the end.\<close>

definition at_index :: "string list \<Rightarrow> nat \<Rightarrow> jsval" where
  "at_index xs i = (if i < length xs then Str (xs ! i) else Undefined)"

text \<open>
  The lower case of one code unit, as \<open>String.prototype.toLowerCase\<close> gives it: the
  letters \<open>A\<close> to \<open>Z\<close> (codes 65 to 90) and the upper case letters of the Latin-1
  Supplement (codes 192 to 222, the multiplication sign 215 apart) are 32 below their
  lower case letters; every other code unit below 256 is its own lower case.
\<close>

definition lower_char :: "char \<Rightarrow> char" where
  "lower_char c =
     (if ((65::nat) \<le> of_char c \<and> of_char c \<le> (90::nat)) \<or>
         ((192::nat) \<le> of_char c \<and> of_char c \<le> (222::nat) \<and> of_char c \<noteq> (215::nat))
      then char_of (of_char c + (32::nat)) else c)"

text \<open>The method \<open>value.toLowerCase()\<close>: a \<open>TypeError\<close> when the receiver is \<open>undefined\<close>.\<close>

fun toLowerCase :: "jsval \<Rightarrow> error + jsval" where
  "toLowerCase Undefined = Inl TypeError"
| "toLowerCase (Str s) = Inr (Str (map lower_char s))"

text \<open>The function \<open>lowerCase\<close> of the source (lines 242 to 247).\<close>

definition lowerCase :: "jsval \<Rightarrow> error + jsval" where
  "lowerCase v = (if truthy v then toLowerCase v else Inr v)"

subsection \<open>Routes and the router\<close>

datatype jspattern = StrPat string | RegexPat "string \<Rightarrow> bool"

record 'h route_entry =
  pattern :: jspattern
  handler :: 'h

record 'h moostaka =
  routes :: "'h route_entry list"
  defaultRoute :: string
  viewLocation :: string
  onnavigate :: "'h option"

type_synonym params = "(string \<times> jsval) list"

datatype arg = Params params | Hash "string list"

datatype 'h effect =
    is_OnNavigate: OnNavigate 'h jsval
  | is_Handler: Handler 'h arg
  | is_PushState: PushState string string string

text \<open>
  The assignment \<open>params[k] = v\<close> on the plain object \<open>params\<close>: the own property
  \<open>k\<close> is added at the end or replaced in place. The key \<open>__proto__\<close> is the
  exception: it names the accessor inherited from \<open>Object.prototype\<close>, whose setter
  ignores a value that is a string or \<open>undefined\<close>, so that the object stays as it is.
\<close>

definition assign_param :: "params \<Rightarrow> string \<Rightarrow> jsval \<Rightarrow> params" where
  "assign_param ps k v = (if k = ''__proto__'' then ps else AList.update k v ps)"

text \<open>The method \<open>route\<close> (lines 237 to 239).\<close>

definition route :: "'h moostaka \<Rightarrow> jspattern \<Rightarrow> 'h \<Rightarrow> 'h moostaka" where
  "route this pat h = this\<lparr>routes := routes this @ [\<lparr>pattern = pat, handler = h\<rparr>]\<rparr>"

subsection \<open>The method \<open>navigate\<close>\<close>

text \<open>
  The inner loop over the segments of a string pattern (lines 87 to 108), from index
  \<open>x\<close>, with the current values of \<open>thisRouteMatch\<close> and \<open>params\<close>.
\<close>

function navigate_segments ::
  "string list \<Rightarrow> string list \<Rightarrow> nat \<Rightarrow> bool \<Rightarrow> params \<Rightarrow> error + (bool \<times> params)" where
  "navigate_segments routeParts hashParts x thisRouteMatch ps =
     (if x < length routeParts then
        if routeParts ! x = ''*'' then Inr (thisRouteMatch, ps)
        else
          let m = (if length routeParts \<noteq> length hashParts then False else thisRouteMatch)
          in
            if substring (routeParts ! x) 0 1 \<noteq> '':'' then
              (case lowerCase (Str (routeParts ! x)) of
                 Inl e \<Rightarrow> Inl e
               | Inr a \<Rightarrow>
                  (case lowerCase (at_index hashParts x) of
                     Inl e \<Rightarrow> Inl e
                   | Inr b \<Rightarrow>
                       navigate_segments routeParts hashParts (x + 1)
                         (if a \<noteq> b then False else m) ps))
            else
              navigate_segments routeParts hashParts (x + 1) m
                (assign_param ps (substring_from (routeParts ! x) 1) (at_index hashParts x))
      else Inr (thisRouteMatch, ps))"
  by pat_completeness auto
termination
  by (relation "measure (\<lambda>(routeParts, hashParts, x, m, ps). length routeParts - x)") auto

declare navigate_segments.simps [simp del]

text \<open>
  The body of the outer loop for one route (lines 80 to 121): \<open>Some\<close> of the handler call
  when the route is taken (the method then returns), \<open>None\<close> when the loop goes on.
\<close>

definition navigate_route :: "'h route_entry \<Rightarrow> string \<Rightarrow> error + 'h effect option" where
  "navigate_route r pathname =
     (let hashParts = split_on CHR ''/'' pathname in
      case pattern r of
        StrPat p \<Rightarrow>
          (case navigate_segments (split_on CHR ''/'' p) hashParts 0 True [] of
             Inl e \<Rightarrow> Inl e
           | Inr (thisRouteMatch, ps) \<Rightarrow>
               if thisRouteMatch = True then Inr (Some (Handler (handler r) (Params ps)))
               else Inr None)
      | RegexPat rx \<Rightarrow>
          if rx (substring_from pathname 1)
          then Inr (Some (Handler (handler r)
                 (Hash (split_on CHR ''/'' (substring_from pathname 1)))))
          else Inr None)"

text \<open>
  The outer loop (lines 79 to 122). It ends with \<open>Inr (Some e)\<close> when a handler was
  called and the method returned, with \<open>Inr None\<close> when every route was tried;
  \<open>routeMatch\<close> is still \<open>false\<close> then, since line 112 is followed by the return.
\<close>

fun navigate_routes :: "'h route_entry list \<Rightarrow> string \<Rightarrow> error + 'h effect option" where
  "navigate_routes [] pathname = Inr None"
| "navigate_routes (r # rs) pathname =
     (case navigate_route r pathname of
        Inl e \<Rightarrow> Inl e
      | Inr (Some eff) \<Rightarrow> Inr (Some eff)
      | Inr None \<Rightarrow> navigate_routes rs pathname)"

text \<open>
  The call of the hook (lines 69 to 71) and the default path (lines 74 to 76). In the
  second branch of \<open>navigate_pathname\<close> the path is truthy, hence a string.
\<close>

definition navigate_hook :: "'h moostaka \<Rightarrow> jsval \<Rightarrow> 'h effect list" where
  "navigate_hook this pathname =
     (case onnavigate this of None \<Rightarrow> [] | Some f \<Rightarrow> [OnNavigate f pathname])"

definition navigate_pathname :: "'h moostaka \<Rightarrow> jsval \<Rightarrow> string" where
  "navigate_pathname this pathname =
     (if \<not> truthy pathname \<or> pathname = Str ''/'' then defaultRoute this
      else (case pathname of Str s \<Rightarrow> s | Undefined \<Rightarrow> defaultRoute this))"

definition navigate :: "'h moostaka \<Rightarrow> jsval \<Rightarrow> error + 'h effect list" where
  "navigate this pathname =
     (case navigate_routes (routes this) (navigate_pathname this pathname) of
        Inl e \<Rightarrow> Inl e
      | Inr (Some eff) \<Rightarrow> Inr (navigate_hook this pathname @ [eff])
      | Inr None \<Rightarrow>
          Inr (navigate_hook this pathname
                 @ [PushState ''data'' ''home'' (defaultRoute this)]))"

subsection \<open>One iteration of the segment loop\<close>

text \<open>
  What one iteration of the inner loop does at index \<open>i\<close> (lines 93 to 107): the flag
  stays \<open>true\<close> exactly when \<open>seg_pass\<close> holds, and \<open>params\<close> becomes
  \<open>seg_bind\<close> of it. Both are only used to state the loop invariant.
\<close>

definition seg_pass :: "string list \<Rightarrow> string list \<Rightarrow> nat \<Rightarrow> bool" where
  "seg_pass routeParts hashParts i \<longleftrightarrow>
     length routeParts = length hashParts \<and>
     (substring (routeParts ! i) 0 1 \<noteq> '':'' \<longrightarrow>
        lowerCase (Str (routeParts ! i)) = lowerCase (at_index hashParts i))"

definition seg_bind :: "string list \<Rightarrow> string list \<Rightarrow> nat \<Rightarrow> params \<Rightarrow> params" where
  "seg_bind routeParts hashParts i ps =
     (if substring (routeParts ! i) 0 1 = '':''
      then assign_param ps (substring_from (routeParts ! i) 1) (at_index hashParts i)
      else ps)"

subsection \<open>A pattern for the examples\<close>

text \<open>
  The regular expression \<open>^post-(\d+)$\<close> as the predicate of the strings it matches:
  \<open>post-\<close> followed by one decimal digit or more, and nothing else.
\<close>

definition post_regex :: "string \<Rightarrow> bool" where
  "post_regex s \<longleftrightarrow> take 5 s = ''post-'' \<and> drop 5 s \<noteq> [] \<and>
     list_all (\<lambda>c. c \<in> set ''0123456789'') (drop 5 s)"

section \<open>The loops\<close>

lemma lowerCase_total: "\<exists>w. lowerCase v = Inr w"
  by (cases v) (simp_all add: lowerCase_def)

lemma split_on_not_Nil: "split_on sep s \<noteq> []"
  by (induction s) (auto split: list.splits)

text \<open>
  The segments of a string: joined again they make the string, none of them holds the
  separator, and they are the only such list.
\<close>

lemma join_on_split_on: "join_on sep (split_on sep s) = s"
proof (induction s)
  case Nil
  show ?case by simp
next
  case (Cons c cs)
  obtain w ws where sp: "split_on sep cs = w # ws"
    using split_on_not_Nil[of sep cs] by (cases "split_on sep cs") auto
  show ?case using Cons sp by (cases ws) auto
qed

lemma split_on_no_sep: "w \<in> set (split_on sep s) \<Longrightarrow> sep \<notin> set w"
proof (induction s arbitrary: w)
  case Nil
  then show ?case by simp
next
  case (Cons c cs)
  obtain v vs where sp: "split_on sep cs = v # vs"
    using split_on_not_Nil[of sep cs] by (cases "split_on sep cs") auto
  show ?case
  proof (cases "c = sep")
    case True
    then show ?thesis using Cons by auto
  next
    case False
    then have "w = c # v \<or> w \<in> set vs" using Cons.prems sp by simp
    then show ?thesis using False Cons.IH[of v] Cons.IH[of w] sp by auto
  qed
qed

lemma split_on_word: "sep \<notin> set w \<Longrightarrow> split_on sep (w @ sep # s) = w # split_on sep s"
  by (induction w) auto

lemma split_on_last_word: "sep \<notin> set w \<Longrightarrow> split_on sep w = [w]"
  by (induction w) auto

lemma split_on_join_on:
  "ws \<noteq> [] \<Longrightarrow> \<forall>w\<in>set ws. sep \<notin> set w \<Longrightarrow> split_on sep (join_on sep ws) = ws"
proof (induction sep ws rule: join_on.induct)
  case (1 sep)
  then show ?case by simp
next
  case (2 sep w)
  then show ?case by (simp add: split_on_last_word)
next
  case (3 sep w v ws)
  then show ?case by (simp add: split_on_word)
qed

text \<open>\<open>toLowerCase\<close> on letters with and without a lower case of their own.\<close>

lemma lower_char_examples:
  "lower_char CHR ''Q'' = CHR ''q'' \<and> lower_char CHR ''q'' = CHR ''q'' \<and>
   lower_char (CHR 0xC9) = CHR 0xE9 \<and> lower_char (CHR 0xDE) = CHR 0xFE \<and>
   lower_char (CHR 0xD7) = CHR 0xD7 \<and> lower_char (CHR 0xDF) = CHR 0xDF \<and>
   lower_char CHR ''['' = CHR ''['' \<and> lower_char CHR ''@'' = CHR ''@''"
  by code_simp

lemma navigate_segments_stop:
  "length rp \<le> x \<or> rp ! x = ''*'' \<Longrightarrow> navigate_segments rp hp x m ps = Inr (m, ps)"
  by (subst navigate_segments.simps) auto

lemma navigate_segments_step:
  assumes "x < length rp" "rp ! x \<noteq> ''*''"
  shows "navigate_segments rp hp x m ps =
         navigate_segments rp hp (Suc x) (m \<and> seg_pass rp hp x) (seg_bind rp hp x ps)"
proof -
  obtain a where a: "lowerCase (Str (rp ! x)) = Inr a" using lowerCase_total by blast
  obtain b where b: "lowerCase (at_index hp x) = Inr b" using lowerCase_total by blast
  show ?thesis
    using assms a b
    by (subst navigate_segments.simps) (auto simp: seg_pass_def seg_bind_def Let_def)
qed

lemma navigate_segments_run:
  assumes "k \<le> length rp" "\<forall>i<k. rp ! i \<noteq> ''*''" "k < length rp \<longrightarrow> rp ! k = ''*''" "x \<le> k"
  shows "navigate_segments rp hp x m ps =
         Inr (m \<and> (\<forall>i. x \<le> i \<and> i < k \<longrightarrow> seg_pass rp hp i), fold (seg_bind rp hp) [x..<k] ps)"
  using assms(4)
proof (induction "k - x" arbitrary: x m ps)
  case 0
  then have "x = k" by simp
  then show ?case using assms(1,3) by (auto simp: navigate_segments_stop)
next
  case (Suc n)
  then have lt: "x < k" by simp
  then have s: "x < length rp" "rp ! x \<noteq> ''*''" using assms(1,2) by auto
  have ih: "navigate_segments rp hp (Suc x) (m \<and> seg_pass rp hp x) (seg_bind rp hp x ps) =
     Inr ((m \<and> seg_pass rp hp x) \<and> (\<forall>i. Suc x \<le> i \<and> i < k \<longrightarrow> seg_pass rp hp i),
          fold (seg_bind rp hp) [Suc x..<k] (seg_bind rp hp x ps))"
    using Suc(1)[of "Suc x"] Suc(2) lt by simp
  have q: "(\<forall>i. x \<le> i \<and> i < k \<longrightarrow> seg_pass rp hp i) \<longleftrightarrow>
           (seg_pass rp hp x \<and> (\<forall>i. Suc x \<le> i \<and> i < k \<longrightarrow> seg_pass rp hp i))"
  proof (intro iffI conjI allI impI)
    assume h: "\<forall>i. x \<le> i \<and> i < k \<longrightarrow> seg_pass rp hp i"
    show "seg_pass rp hp x" using h lt by simp
    fix i assume "Suc x \<le> i \<and> i < k"
    then show "seg_pass rp hp i" using h by simp
  next
    fix i
    assume h: "seg_pass rp hp x \<and> (\<forall>i. Suc x \<le> i \<and> i < k \<longrightarrow> seg_pass rp hp i)"
      and i: "x \<le> i \<and> i < k"
    show "seg_pass rp hp i"
    proof (cases "i = x")
      case True then show ?thesis using h by simp
    next
      case False
      then have "Suc x \<le> i" using i by simp
      then show ?thesis using h i by simp
    qed
  qed
  show ?case
    unfolding navigate_segments_step[OF s] ih q using lt
    by (simp add: upt_conv_Cons conj_assoc)
qed

lemma fold_seg_bind_frame:
  "\<forall>i\<in>set js. substring (rp ! i) 0 1 = '':'' \<longrightarrow> substring_from (rp ! i) 1 \<noteq> n \<Longrightarrow>
   map_of (fold (seg_bind rp hp) js ps) n = map_of ps n"
  by (induction js arbitrary: ps) (auto simp: seg_bind_def assign_param_def update_conv')

lemma fold_seg_bind_last:
  assumes "substring (rp ! i) 0 1 = '':''"
    and "substring_from (rp ! i) 1 \<noteq> ''__proto__''"
    and "\<forall>j\<in>set bs. substring (rp ! j) 0 1 = '':'' \<longrightarrow>
           substring_from (rp ! j) 1 \<noteq> substring_from (rp ! i) 1"
  shows "map_of (fold (seg_bind rp hp) (as @ i # bs) ps) (substring_from (rp ! i) 1) =
         Some (at_index hp i)"
  using assms
  by (simp add: fold_seg_bind_frame) (simp add: seg_bind_def assign_param_def update_conv')

lemma fold_seg_bind_dom:
  "map_of (fold (seg_bind rp hp) js ps) n = Some v \<Longrightarrow>
   map_of ps n = Some v \<or>
   (\<exists>i\<in>set js. substring (rp ! i) 0 1 = '':'' \<and> substring_from (rp ! i) 1 = n \<and> v = at_index hp i)"
proof (induction js arbitrary: ps)
  case Nil
  then show ?case by simp
next
  case (Cons j js)
  from Cons.IH[of "seg_bind rp hp j ps"] Cons.prems
  show ?case by (auto simp: seg_bind_def assign_param_def update_conv' split: if_splits)
qed

lemma wildcard_index:
  fixes rp :: "string list"
  defines "k \<equiv> length (takeWhile (\<lambda>s. s \<noteq> ''*'') rp)"
  shows "k \<le> length rp" and "\<forall>i<k. rp ! i \<noteq> ''*''" and "k < length rp \<longrightarrow> rp ! k = ''*''"
proof -
  show "k \<le> length rp" unfolding k_def by (rule length_takeWhile_le)
  show "\<forall>i<k. rp ! i \<noteq> ''*''"
  proof (intro allI impI)
    fix i assume i: "i < k"
    then have "takeWhile (\<lambda>s. s \<noteq> ''*'') rp ! i \<in> set (takeWhile (\<lambda>s. s \<noteq> ''*'') rp)"
      unfolding k_def by (rule nth_mem)
    then have "takeWhile (\<lambda>s. s \<noteq> ''*'') rp ! i \<noteq> ''*''" by (rule set_takeWhileD[THEN conjunct2])
    then show "rp ! i \<noteq> ''*''" using i by (simp add: takeWhile_nth k_def)
  qed
  show "k < length rp \<longrightarrow> rp ! k = ''*''"
    unfolding k_def using nth_length_takeWhile[of "\<lambda>s. s \<noteq> ''*''" rp] by auto
qed

lemma first_wildcard:
  obtains k where "k \<le> length rp" "\<forall>i<k. rp ! i \<noteq> ''*''" "k < length rp \<longrightarrow> rp ! k = ''*''"
  using wildcard_index[of rp] by blast

lemma navigate_route_StrPat:
  assumes "k \<le> length (split_on CHR ''/'' p)"
    and "\<forall>i<k. split_on CHR ''/'' p ! i \<noteq> ''*''"
    and "k < length (split_on CHR ''/'' p) \<longrightarrow> split_on CHR ''/'' p ! k = ''*''"
  shows "navigate_route \<lparr>pattern = StrPat p, handler = h\<rparr> pathname =
         Inr (if \<forall>i<k. seg_pass (split_on CHR ''/'' p) (split_on CHR ''/'' pathname) i
              then Some (Handler h (Params
                     (fold (seg_bind (split_on CHR ''/'' p) (split_on CHR ''/'' pathname)) [0..<k] [])))
              else None)"
  by (simp add: navigate_route_def Let_def navigate_segments_run[OF assms, of 0])

lemma navigate_routes_skip:
  "\<forall>q\<in>set pre. navigate_route q pathname = Inr None \<Longrightarrow>
   navigate_routes (pre @ rs) pathname = navigate_routes rs pathname"
  by (induction pre) auto

lemma navigate_route_total: "\<exists>res. navigate_route r pathname = Inr res"
proof (cases "pattern r")
  case (StrPat p)
  obtain k where k: "k \<le> length (split_on CHR ''/'' p)" "\<forall>i<k. split_on CHR ''/'' p ! i \<noteq> ''*''"
    "k < length (split_on CHR ''/'' p) \<longrightarrow> split_on CHR ''/'' p ! k = ''*''"
    by (rule first_wildcard)
  show ?thesis
    using StrPat navigate_segments_run[OF k, of 0]
    by (simp add: navigate_route_def Let_def)
next
  case (RegexPat rx)
  then show ?thesis by (simp add: navigate_route_def)
qed

lemma navigate_routes_total: "\<exists>res. navigate_routes rs pathname = Inr res"
proof (induction rs)
  case Nil
  then show ?case by simp
next
  case (Cons r rs)
  obtain res where "navigate_route r pathname = Inr res" using navigate_route_total by blast
  then show ?case using Cons by (cases res) auto
qed

text \<open>
  The literal comparison on letters outside \<open>A\<close> to \<open>Z\<close>: the pattern made of the
  separator and the letter of code 201 takes the path made of the separator and the
  letter of code 233, and the same pattern followed by a wildcard takes a path of as
  many segments.
\<close>

lemma latin1_literal_match:
  "navigate_route \<lparr>pattern = StrPat [CHR ''/'', CHR 0xC9], handler = (1::nat)\<rparr>
     [CHR ''/'', CHR 0xE9] = Inr (Some (Handler 1 (Params []))) \<and>
   navigate_route \<lparr>pattern = StrPat [CHR ''/'', CHR 0xC9, CHR ''/'', CHR ''*''], handler = (1::nat)\<rparr>
     [CHR ''/'', CHR 0xE9, CHR ''/'', CHR ''x''] = Inr (Some (Handler 1 (Params [])))"
  by code_simp

section \<open>Acceptance of a string pattern\<close>

text \<open>
  Claim C1, as amended. A string pattern whose last segment is \<open>*\<close>, tried on a path whose
  segments before the first wildcard of the pattern pass the literal comparison
  (parameter segments pass whatever the value), is taken exactly when the path has as
  many segments as the pattern or the first segment of the pattern is itself \<open>*\<close>. The
  strict count check of lines 93 to 96 runs in every iteration that comes before the
  wildcard, so that a trailing wildcard does not lift it. The segments from the first
  wildcard on are not looked at.
\<close>

theorem trailing_wildcard_same_count:
  fixes p pathname :: string and h :: 'h
  defines "routeParts \<equiv> split_on CHR ''/'' p"
    and "hashParts \<equiv> split_on CHR ''/'' pathname"
  assumes last: "last routeParts = ''*''"
    and checks: "\<forall>i<length (takeWhile (\<lambda>s. s \<noteq> ''*'') routeParts).
                   substring (routeParts ! i) 0 1 \<noteq> '':'' \<longrightarrow>
                   lowerCase (Str (routeParts ! i)) = lowerCase (at_index hashParts i)"
  shows "\<exists>ps. navigate_route \<lparr>pattern = StrPat p, handler = h\<rparr> pathname =
           Inr (if length routeParts = length hashParts \<or> hd routeParts = ''*''
                then Some (Handler h (Params ps)) else None)"
proof -
  define k where "k = length (takeWhile (\<lambda>s. s \<noteq> ''*'') routeParts)"
  have k: "k \<le> length routeParts" "\<forall>i<k. routeParts ! i \<noteq> ''*''"
    "k < length routeParts \<longrightarrow> routeParts ! k = ''*''"
    unfolding k_def by (rule wildcard_index)+
  have ne: "routeParts \<noteq> []" by (simp add: routeParts_def split_on_not_Nil)
  then have l: "routeParts ! (length routeParts - 1) = ''*''"
    using last by (simp add: last_conv_nth)
  have klt: "k \<le> length routeParts - 1"
  proof (rule ccontr)
    assume "\<not> k \<le> length routeParts - 1"
    then have "length routeParts - 1 < k" by simp
    then show False using k(2) l by blast
  qed
  then have kl: "k < length routeParts" using ne by (cases routeParts) auto
  have hd: "hd routeParts = ''*'' \<longleftrightarrow> k = 0"
  proof
    assume "hd routeParts = ''*''"
    then have "routeParts ! 0 = ''*''" using ne by (simp add: hd_conv_nth)
    then show "k = 0" using k(2) by (cases k) auto
  next
    assume "k = 0"
    then show "hd routeParts = ''*''" using k(3) kl ne by (simp add: hd_conv_nth)
  qed
  have pass: "(\<forall>i<k. seg_pass routeParts hashParts i) \<longleftrightarrow>
              (length routeParts = length hashParts \<or> k = 0)"
  proof
    assume a: "\<forall>i<k. seg_pass routeParts hashParts i"
    show "length routeParts = length hashParts \<or> k = 0"
    proof (cases "k = 0")
      case False
      then have "seg_pass routeParts hashParts 0" using a by simp
      then show ?thesis by (simp add: seg_pass_def)
    qed simp
  next
    assume a: "length routeParts = length hashParts \<or> k = 0"
    show "\<forall>i<k. seg_pass routeParts hashParts i"
    proof (intro allI impI)
      fix i assume i: "i < k"
      then have "length routeParts = length hashParts" using a by auto
      then show "seg_pass routeParts hashParts i"
        using checks i by (simp add: seg_pass_def k_def)
    qed
  qed
  show ?thesis
    using navigate_route_StrPat[OF k[unfolded routeParts_def], of h pathname]
    unfolding routeParts_def[symmetric] hashParts_def[symmetric] pass hd
    by (intro exI[of _ "fold (seg_bind routeParts hashParts) [0..<k] []"]) simp
qed

text \<open>
  The pattern \<open>/users/*\<close> takes the path \<open>/users/42\<close>; the pattern \<open>a/*/b/*\<close> takes
  \<open>a/x/b/z\<close>, its inner wildcard ending the loop; a pattern with the letter of code
  201 (E with acute accent) takes the path with the letter of code 233, its lower case.
\<close>

theorem trailing_wildcard_same_count_witness:
  "(\<exists>ps. navigate_route \<lparr>pattern = StrPat ''/users/*'', handler = (2::nat)\<rparr> ''/users/42'' =
      Inr (Some (Handler 2 (Params ps)))) \<and>
   (\<exists>ps. navigate_route \<lparr>pattern = StrPat ''a/*/b/*'', handler = (2::nat)\<rparr> ''a/x/b/z'' =
      Inr (Some (Handler 2 (Params ps)))) \<and>
   (\<exists>ps. navigate_route
            \<lparr>pattern = StrPat [CHR ''/'', CHR 0xC9, CHR ''/'', CHR ''*''], handler = (2::nat)\<rparr>
            [CHR ''/'', CHR 0xE9, CHR ''/'', CHR ''x''] =
      Inr (Some (Handler 2 (Params ps))))"
proof -
  have a1: "last (split_on CHR ''/'' ''/users/*'') = ''*''" by simp
  have b1: "\<forall>i<length (takeWhile (\<lambda>s. s \<noteq> ''*'') (split_on CHR ''/'' ''/users/*'')).
             substring (split_on CHR ''/'' ''/users/*'' ! i) 0 1 \<noteq> '':'' \<longrightarrow>
             lowerCase (Str (split_on CHR ''/'' ''/users/*'' ! i)) =
             lowerCase (at_index (split_on CHR ''/'' ''/users/42'') i)"
    by (simp add: numeral_2_eq_2 less_Suc_eq lowerCase_def at_index_def)
  have a2: "last (split_on CHR ''/'' ''a/*/b/*'') = ''*''" by simp
  have b2: "\<forall>i<length (takeWhile (\<lambda>s. s \<noteq> ''*'') (split_on CHR ''/'' ''a/*/b/*'')).
             substring (split_on CHR ''/'' ''a/*/b/*'' ! i) 0 1 \<noteq> '':'' \<longrightarrow>
             lowerCase (Str (split_on CHR ''/'' ''a/*/b/*'' ! i)) =
             lowerCase (at_index (split_on CHR ''/'' ''a/x/b/z'') i)"
    by (simp add: lowerCase_def at_index_def)
  have a3: "last (split_on CHR ''/'' [CHR ''/'', CHR 0xC9, CHR ''/'', CHR ''*'']) = ''*''" by simp
  have l3: "lower_char (CHR 0xC9) = CHR 0xE9" "lower_char (CHR 0xE9) = CHR 0xE9" by code_simp+
  have b3: "\<forall>i<length (takeWhile (\<lambda>s. s \<noteq> ''*'')
                 (split_on CHR ''/'' [CHR ''/'', CHR 0xC9, CHR ''/'', CHR ''*''])).
             substring (split_on CHR ''/'' [CHR ''/'', CHR 0xC9, CHR ''/'', CHR ''*''] ! i) 0 1 \<noteq> '':'' \<longrightarrow>
             lowerCase (Str (split_on CHR ''/'' [CHR ''/'', CHR 0xC9, CHR ''/'', CHR ''*''] ! i)) =
             lowerCase (at_index (split_on CHR ''/'' [CHR ''/'', CHR 0xE9, CHR ''/'', CHR ''x'']) i)"
    by (simp add: numeral_2_eq_2 less_Suc_eq lowerCase_def at_index_def l3)
  show ?thesis
    using trailing_wildcard_same_count[OF a1 b1, of "2::nat"]
      trailing_wildcard_same_count[OF a2 b2, of "2::nat"]
      trailing_wildcard_same_count[OF a3 b3, of "2::nat"]
    by simp
qed

text \<open>
  Claim C1 as it is written fails on its own example: the empty segment and \<open>users\<close>
  before the wildcard pass the comparison, and still \<open>/users/*\<close> does not take
  \<open>/users/42/edit\<close>, neither alone nor after \<open>/users/:id\<close>; no handler is called.
\<close>

theorem trailing_wildcard_counterexample:
  "last (split_on CHR ''/'' ''/users/*'') = ''*'' \<and>
   lowerCase (Str (split_on CHR ''/'' ''/users/*'' ! 0)) =
     lowerCase (at_index (split_on CHR ''/'' ''/users/42/edit'') 0) \<and>
   lowerCase (Str (split_on CHR ''/'' ''/users/*'' ! 1)) =
     lowerCase (at_index (split_on CHR ''/'' ''/users/42/edit'') 1) \<and>
   navigate_route \<lparr>pattern = StrPat ''/users/*'', handler = (2::nat)\<rparr> ''/users/42/edit'' = Inr None \<and>
   navigate
     \<lparr>routes = [\<lparr>pattern = StrPat ''/users/:id'', handler = 1\<rparr>,
                \<lparr>pattern = StrPat ''/users/*'', handler = (2::nat)\<rparr>],
      defaultRoute = ''/'', viewLocation = ''/views'', onnavigate = None\<rparr>
     (Str ''/users/42/edit'') = Inr [PushState ''data'' ''home'' ''/'']"
  by code_simp

text \<open>
  Claim C2. For a string pattern with a wildcard at index \<open>k\<close> (the first one) and any
  path: when an iteration before \<open>k\<close> sets the flag to \<open>false\<close>, by a different segment
  count or by a literal comparison that fails, the route is not taken. The \<open>break\<close> only
  leaves the loop; the flag is tested after it.
\<close>

theorem wildcard_keeps_flag:
  fixes p pathname :: string and h :: 'h
  defines "routeParts \<equiv> split_on CHR ''/'' p"
    and "hashParts \<equiv> split_on CHR ''/'' pathname"
  assumes wild: "k < length routeParts" "routeParts ! k = ''*''" "\<forall>i<k. routeParts ! i \<noteq> ''*''"
    and bad: "\<exists>i<k. length routeParts \<noteq> length hashParts \<or>
                (substring (routeParts ! i) 0 1 \<noteq> '':'' \<and>
                 lowerCase (Str (routeParts ! i)) \<noteq> lowerCase (at_index hashParts i))"
  shows "navigate_route \<lparr>pattern = StrPat p, handler = h\<rparr> pathname = Inr None"
proof -
  have k: "k \<le> length routeParts" "\<forall>i<k. routeParts ! i \<noteq> ''*''"
    "k < length routeParts \<longrightarrow> routeParts ! k = ''*''"
    using wild by auto
  from bad obtain i where "i < k" "\<not> seg_pass routeParts hashParts i"
    by (auto simp: seg_pass_def)
  then have "\<not> (\<forall>i<k. seg_pass routeParts hashParts i)" by blast
  then show ?thesis
    using navigate_route_StrPat[OF k[unfolded routeParts_def], of h pathname]
    by (simp add: routeParts_def hashParts_def)
qed

text \<open>The pattern \<open>/users/*/x\<close> on \<open>/people/7/x\<close>: the literal at index 1 differs.\<close>

theorem wildcard_keeps_flag_witness:
  "navigate_route \<lparr>pattern = StrPat ''/users/*/x'', handler = (1::nat)\<rparr> ''/people/7/x'' = Inr None"
proof -
  have a: "2 < length (split_on CHR ''/'' ''/users/*/x'')" by simp
  have b: "split_on CHR ''/'' ''/users/*/x'' ! 2 = ''*''" by simp
  have c: "\<forall>i<2. split_on CHR ''/'' ''/users/*/x'' ! i \<noteq> ''*''"
    by (simp add: numeral_2_eq_2 less_Suc_eq)
  have d: "\<exists>i<2. length (split_on CHR ''/'' ''/users/*/x'') \<noteq> length (split_on CHR ''/'' ''/people/7/x'') \<or>
      (substring (split_on CHR ''/'' ''/users/*/x'' ! i) 0 1 \<noteq> '':'' \<and>
       lowerCase (Str (split_on CHR ''/'' ''/users/*/x'' ! i)) \<noteq>
       lowerCase (at_index (split_on CHR ''/'' ''/people/7/x'') i))"
    by (rule exI[of _ 1]) (simp add: substring_def lowerCase_def at_index_def)
  show ?thesis by (rule wildcard_keeps_flag[OF a b c d])
qed

text \<open>
  Claim C5. A string pattern without a \<open>*\<close> segment does not take a path whose number
  of segments differs from its own: the loop body goes on to the next route and the
  handler is not called.
\<close>

theorem count_mismatch_rejects:
  fixes p pathname :: string and h :: 'h
  defines "routeParts \<equiv> split_on CHR ''/'' p"
    and "hashParts \<equiv> split_on CHR ''/'' pathname"
  assumes nowild: "''*'' \<notin> set routeParts"
    and len: "length routeParts \<noteq> length hashParts"
  shows "navigate_route \<lparr>pattern = StrPat p, handler = h\<rparr> pathname = Inr None"
proof -
  have k: "length routeParts \<le> length routeParts" "\<forall>i<length routeParts. routeParts ! i \<noteq> ''*''"
    "length routeParts < length routeParts \<longrightarrow> routeParts ! length routeParts = ''*''"
    using nowild by (auto simp: in_set_conv_nth)
  have "0 < length routeParts" by (simp add: routeParts_def split_on_not_Nil)
  moreover have "\<not> seg_pass routeParts hashParts 0" using len by (simp add: seg_pass_def)
  ultimately have "\<not> (\<forall>i<length routeParts. seg_pass routeParts hashParts i)" by blast
  then show ?thesis
    using navigate_route_StrPat[OF k[unfolded routeParts_def], of h pathname]
    by (simp add: routeParts_def hashParts_def)
qed

text \<open>The pattern \<open>/a/:x\<close> on the path \<open>/b\<close>.\<close>

theorem count_mismatch_rejects_witness:
  "''*'' \<notin> set (split_on CHR ''/'' ''/a/:x'') \<and>
   length (split_on CHR ''/'' ''/a/:x'') \<noteq> length (split_on CHR ''/'' ''/b'') \<and>
   navigate_route \<lparr>pattern = StrPat ''/a/:x'', handler = (1::nat)\<rparr> ''/b'' = Inr None"
proof -
  have a: "''*'' \<notin> set (split_on CHR ''/'' ''/a/:x'')" by simp
  have b: "length (split_on CHR ''/'' ''/a/:x'') \<noteq> length (split_on CHR ''/'' ''/b'')" by simp
  show ?thesis using a b count_mismatch_rejects[OF a b, of "1::nat"] by simp
qed

section \<open>The loop over the routes\<close>

lemma navigate_route_Some:
  assumes "navigate_route r pathname = Inr (Some e)"
  shows "\<exists>a. e = Handler (handler r) a"
  using assms
  by (cases "pattern r")
     (auto simp: navigate_route_def Let_def split: sum.splits prod.splits if_splits)

lemma navigate_first_match:
  assumes "routes this = pre @ r # post"
    and "\<forall>q\<in>set pre. navigate_route q (navigate_pathname this pathname) = Inr None"
    and "navigate_route r (navigate_pathname this pathname) = Inr (Some e)"
  shows "navigate this pathname = Inr (navigate_hook this pathname @ [e])"
  using assms by (simp add: navigate_def navigate_routes_skip)

lemma navigate_no_match:
  assumes "\<forall>q\<in>set (routes this). navigate_route q (navigate_pathname this pathname) = Inr None"
  shows "navigate this pathname =
         Inr (navigate_hook this pathname @ [PushState ''data'' ''home'' (defaultRoute this)])"
  using navigate_routes_skip[OF assms, of "[]"] by (simp add: navigate_def)

lemma filter_navigate_hook: "filter is_Handler (navigate_hook this pathname) = []"
  by (simp add: navigate_hook_def split: option.splits)

text \<open>
  Claim C3. The routes are tried in the order of registration and the first one that
  matches wins: when no route of \<open>pre\<close> takes the path and \<open>r\<close> does, \<open>navigate\<close> calls
  the handler of \<open>r\<close> and nothing else after the hook. The list of effects holds exactly
  one handler call, and it does not depend on \<open>post\<close>: no later route is tried, even
  one that would take the path too.
\<close>

theorem first_match_wins:
  assumes "routes this = pre @ r # post"
    and "\<forall>q\<in>set pre. navigate_route q (navigate_pathname this pathname) = Inr None"
    and "navigate_route r (navigate_pathname this pathname) = Inr (Some e)"
  shows "navigate this pathname = Inr (navigate_hook this pathname @ [e]) \<and>
         (\<exists>a. e = Handler (handler r) a) \<and>
         filter is_Handler (navigate_hook this pathname @ [e]) = [e]"
proof -
  obtain a where a: "e = Handler (handler r) a"
    using navigate_route_Some[OF assms(3)] by blast
  show ?thesis
    using navigate_first_match[OF assms] a by (simp add: filter_navigate_hook)
qed

text \<open>
  After \<open>/about\<close>, which does not match, both \<open>/users/:id\<close> and \<open>/users/*\<close> take
  \<open>/users/42\<close>; only the handler of the first one is called.
\<close>

theorem first_match_wins_witness:
  "navigate_route \<lparr>pattern = StrPat ''/users/*'', handler = (2::nat)\<rparr> ''/users/42'' =
     Inr (Some (Handler 2 (Params []))) \<and>
   navigate
     \<lparr>routes = [\<lparr>pattern = StrPat ''/about'', handler = 0\<rparr>,
                \<lparr>pattern = StrPat ''/users/:id'', handler = 1\<rparr>,
                \<lparr>pattern = StrPat ''/users/*'', handler = (2::nat)\<rparr>],
      defaultRoute = ''/'', viewLocation = ''/views'', onnavigate = None\<rparr>
     (Str ''/users/42'') = Inr [Handler 1 (Params [(''id'', Str ''42'')])]"
proof -
  let ?r0 = "\<lparr>pattern = StrPat ''/about'', handler = (0::nat)\<rparr>"
  let ?r1 = "\<lparr>pattern = StrPat ''/users/:id'', handler = (1::nat)\<rparr>"
  let ?r2 = "\<lparr>pattern = StrPat ''/users/*'', handler = (2::nat)\<rparr>"
  let ?R = "\<lparr>routes = [?r0, ?r1, ?r2], defaultRoute = ''/'', viewLocation = ''/views'',
             onnavigate = None\<rparr>"
  have a: "routes ?R = [?r0] @ ?r1 # [?r2]" by simp
  have b: "\<forall>q\<in>set [?r0]. navigate_route q (navigate_pathname ?R (Str ''/users/42'')) = Inr None"
    by code_simp
  have c: "navigate_route ?r1 (navigate_pathname ?R (Str ''/users/42'')) =
           Inr (Some (Handler 1 (Params [(''id'', Str ''42'')])))"
    by code_simp
  have d: "navigate_route ?r2 ''/users/42'' = Inr (Some (Handler 2 (Params [])))"
    by code_simp
  show ?thesis
    using first_match_wins[OF a b c] d by (simp add: navigate_hook_def)
qed

text \<open>
  Claim C4, as amended. For a string pattern without wildcard, reached by the loop, and a
  path with as many segments whose segments equal the literal segments of the pattern
  up to case: the handler is called with a parameter object that binds every parameter
  name, other than \<open>__proto__\<close>, to the path segment at the last pattern segment of
  that name, and that has no other key. The value of a parameter segment is not looked at.
\<close>

theorem param_route_binds:
  fixes this :: "'h moostaka" and pathname :: jsval and p :: string and h :: 'h
  defines "path \<equiv> navigate_pathname this pathname"
  defines "routeParts \<equiv> split_on CHR ''/'' p"
    and "hashParts \<equiv> split_on CHR ''/'' path"
  assumes rs: "routes this = pre @ \<lparr>pattern = StrPat p, handler = h\<rparr> # post"
    and pre: "\<forall>q\<in>set pre. navigate_route q path = Inr None"
    and nowild: "''*'' \<notin> set routeParts"
    and len: "length routeParts = length hashParts"
    and lit: "\<forall>i<length routeParts. substring (routeParts ! i) 0 1 \<noteq> '':'' \<longrightarrow>
                lowerCase (Str (routeParts ! i)) = lowerCase (Str (hashParts ! i))"
  shows "\<exists>ps. navigate this pathname = Inr (navigate_hook this pathname @ [Handler h (Params ps)]) \<and>
           (\<forall>i<length routeParts.
              substring (routeParts ! i) 0 1 = '':'' \<and>
              substring_from (routeParts ! i) 1 \<noteq> ''__proto__'' \<and>
              (\<forall>j. i < j \<and> j < length routeParts \<and> substring (routeParts ! j) 0 1 = '':'' \<longrightarrow>
                   substring_from (routeParts ! j) 1 \<noteq> substring_from (routeParts ! i) 1) \<longrightarrow>
              map_of ps (substring_from (routeParts ! i) 1) = Some (Str (hashParts ! i))) \<and>
           (\<forall>n v. map_of ps n = Some v \<longrightarrow>
              (\<exists>i<length routeParts. substring (routeParts ! i) 0 1 = '':'' \<and>
                 substring_from (routeParts ! i) 1 = n \<and> v = Str (hashParts ! i)))"
proof -
  let ?n = "length routeParts"
  let ?ps = "fold (seg_bind routeParts hashParts) [0..<?n] []"
  have k: "?n \<le> length routeParts" "\<forall>i<?n. routeParts ! i \<noteq> ''*''"
    "?n < length routeParts \<longrightarrow> routeParts ! ?n = ''*''"
    using nowild by (auto simp: in_set_conv_nth)
  have at: "at_index hashParts i = Str (hashParts ! i)" if "i < ?n" for i
    using that len by (simp add: at_index_def)
  have pass: "\<forall>i<?n. seg_pass routeParts hashParts i"
    using len lit by (simp add: seg_pass_def at)
  have "navigate_route \<lparr>pattern = StrPat p, handler = h\<rparr> path = Inr (Some (Handler h (Params ?ps)))"
    using navigate_route_StrPat[OF k[unfolded routeParts_def], of h path] pass
    by (simp add: routeParts_def hashParts_def)
  then have nav: "navigate this pathname = Inr (navigate_hook this pathname @ [Handler h (Params ?ps)])"
    using navigate_first_match[OF rs pre[unfolded path_def]] by (simp add: path_def)
  have bind: "map_of ?ps (substring_from (routeParts ! i) 1) = Some (Str (hashParts ! i))"
    if i: "i < ?n" and par: "substring (routeParts ! i) 0 1 = '':''"
      and np: "substring_from (routeParts ! i) 1 \<noteq> ''__proto__''"
      and late: "\<forall>j. i < j \<and> j < ?n \<and> substring (routeParts ! j) 0 1 = '':'' \<longrightarrow>
                   substring_from (routeParts ! j) 1 \<noteq> substring_from (routeParts ! i) 1"
    for i
  proof -
    have "[0..<i + (?n - i)] = [0..<i] @ [i..<i + (?n - i)]"
      by (rule upt_add_eq_append) simp
    then have sp: "[0..<?n] = [0..<i] @ i # [Suc i..<?n]"
      using i by (simp add: upt_conv_Cons)
    have "\<forall>j\<in>set [Suc i..<?n]. substring (routeParts ! j) 0 1 = '':'' \<longrightarrow>
            substring_from (routeParts ! j) 1 \<noteq> substring_from (routeParts ! i) 1"
      using late by auto
    from fold_seg_bind_last[OF par np this, of hashParts "[0..<i]" "[]"]
    show ?thesis unfolding sp using at[OF i] by simp
  qed
  have dom: "\<exists>i<?n. substring (routeParts ! i) 0 1 = '':'' \<and>
               substring_from (routeParts ! i) 1 = n \<and> v = Str (hashParts ! i)"
    if "map_of ?ps n = Some v" for n v
    using fold_seg_bind_dom[OF that] at by auto
  show ?thesis
    using nav bind dom by (intro exI[of _ ?ps]) blast
qed

text \<open>The pattern \<open>/users/:id\<close> on the path \<open>/USERS/42\<close>, after \<open>/about\<close>.\<close>

theorem param_route_binds_witness:
  "\<exists>ps. navigate
          \<lparr>routes = [\<lparr>pattern = StrPat ''/about'', handler = (0::nat)\<rparr>,
                     \<lparr>pattern = StrPat ''/users/:id'', handler = 1\<rparr>],
           defaultRoute = ''/'', viewLocation = ''/views'', onnavigate = None\<rparr>
          (Str ''/USERS/42'') = Inr [Handler 1 (Params ps)] \<and>
        map_of ps ''id'' = Some (Str ''42'')"
proof -
  let ?r0 = "\<lparr>pattern = StrPat ''/about'', handler = (0::nat)\<rparr>"
  let ?r1 = "\<lparr>pattern = StrPat ''/users/:id'', handler = (1::nat)\<rparr>"
  let ?R = "\<lparr>routes = [?r0, ?r1], defaultRoute = ''/'', viewLocation = ''/views'',
             onnavigate = None\<rparr>"
  have path: "navigate_pathname ?R (Str ''/USERS/42'') = ''/USERS/42''"
    by (simp add: navigate_pathname_def)
  have a: "routes ?R = [?r0] @ ?r1 # []" by simp
  have b: "\<forall>q\<in>set [?r0]. navigate_route q (navigate_pathname ?R (Str ''/USERS/42'')) = Inr None"
    by code_simp
  have c: "''*'' \<notin> set (split_on CHR ''/'' ''/users/:id'')" by simp
  have d: "length (split_on CHR ''/'' ''/users/:id'') =
           length (split_on CHR ''/'' (navigate_pathname ?R (Str ''/USERS/42'')))"
    unfolding path by simp
  have e: "\<forall>i<length (split_on CHR ''/'' ''/users/:id'').
             substring (split_on CHR ''/'' ''/users/:id'' ! i) 0 1 \<noteq> '':'' \<longrightarrow>
             lowerCase (Str (split_on CHR ''/'' ''/users/:id'' ! i)) =
             lowerCase (Str (split_on CHR ''/'' (navigate_pathname ?R (Str ''/USERS/42'')) ! i))"
    unfolding path by code_simp
  from param_route_binds[OF a b c d e]
  obtain ps where n: "navigate ?R (Str ''/USERS/42'') =
        Inr (navigate_hook ?R (Str ''/USERS/42'') @ [Handler 1 (Params ps)])"
    and m: "\<forall>i<length (split_on CHR ''/'' ''/users/:id'').
              substring (split_on CHR ''/'' ''/users/:id'' ! i) 0 1 = '':'' \<and>
              substring_from (split_on CHR ''/'' ''/users/:id'' ! i) 1 \<noteq> ''__proto__'' \<and>
              (\<forall>j. i < j \<and> j < length (split_on CHR ''/'' ''/users/:id'') \<and>
                   substring (split_on CHR ''/'' ''/users/:id'' ! j) 0 1 = '':'' \<longrightarrow>
                   substring_from (split_on CHR ''/'' ''/users/:id'' ! j) 1 \<noteq>
                   substring_from (split_on CHR ''/'' ''/users/:id'' ! i) 1) \<longrightarrow>
              map_of ps (substring_from (split_on CHR ''/'' ''/users/:id'' ! i) 1) =
              Some (Str (split_on CHR ''/'' (navigate_pathname ?R (Str ''/USERS/42'')) ! i))"
    by blast
  have "map_of ps ''id'' = Some (Str ''42'')"
    using m[rule_format, of 2] unfolding path by (simp add: substring_def substring_from_def)
  then show ?thesis using n by (simp add: navigate_hook_def)
qed

text \<open>
  Claim C4 as it is written asks that each \<open>:name\<close> segment be bound to its own path
  segment. With the pattern \<open>/:a/:a\<close> and the path \<open>/1/2\<close> the segment of index 1 is
  \<open>:a\<close>, its path segment is \<open>1\<close>, and the handler gets \<open>a\<close> bound to \<open>2\<close>: the second
  assignment replaces the first.
\<close>

theorem param_route_binds_counterexample:
  "''*'' \<notin> set (split_on CHR ''/'' ''/:a/:a'') \<and>
   length (split_on CHR ''/'' ''/:a/:a'') = length (split_on CHR ''/'' ''/1/2'') \<and>
   lowerCase (Str (split_on CHR ''/'' ''/:a/:a'' ! 0)) =
     lowerCase (Str (split_on CHR ''/'' ''/1/2'' ! 0)) \<and>
   split_on CHR ''/'' ''/:a/:a'' ! 1 = '':a'' \<and>
   split_on CHR ''/'' ''/1/2'' ! 1 = ''1'' \<and>
   navigate
     \<lparr>routes = [\<lparr>pattern = StrPat ''/:a/:a'', handler = (1::nat)\<rparr>],
      defaultRoute = ''/'', viewLocation = ''/views'', onnavigate = None\<rparr>
     (Str ''/1/2'') = Inr [Handler 1 (Params [(''a'', Str ''2'')])] \<and>
   map_of [(''a'', Str ''2'')] ''a'' \<noteq> Some (Str ''1'')"
  by code_simp

section \<open>Patterns that are not strings\<close>

text \<open>
  Claim C6. For a regex route reached by the loop, the pattern is tested on
  \<open>pathname.substring(1)\<close>, the path without its leading separator; when the test
  succeeds the handler is called with the \<open>hash\<close> made of that string split on \<open>/\<close>,
  whatever routes come after. The segments of the \<open>hash\<close> are the stripped path cut
  at every separator: joined with \<open>/\<close> they give the stripped path back, none of them
  holds a \<open>/\<close>, and no other list of segments does both. The last part says that
  \<open>substring(1)\<close> removes the leading separator of a path that starts with one.
\<close>

theorem regex_route:
  fixes this :: "'h moostaka" and pathname :: jsval
  defines "stripped \<equiv> substring_from (navigate_pathname this pathname) 1"
  assumes "routes this = pre @ \<lparr>pattern = RegexPat rx, handler = h\<rparr> # post"
    and "\<forall>q\<in>set pre. navigate_route q (navigate_pathname this pathname) = Inr None"
    and "rx stripped"
  shows "navigate this pathname =
           Inr (navigate_hook this pathname @ [Handler h (Hash (split_on CHR ''/'' stripped))]) \<and>
         join_on CHR ''/'' (split_on CHR ''/'' stripped) = stripped \<and>
         (\<forall>w\<in>set (split_on CHR ''/'' stripped). CHR ''/'' \<notin> set w) \<and>
         (\<forall>segments. segments \<noteq> [] \<and> (\<forall>w\<in>set segments. CHR ''/'' \<notin> set w) \<and>
              join_on CHR ''/'' segments = stripped \<longrightarrow>
            split_on CHR ''/'' stripped = segments) \<and>
         substring_from (CHR ''/'' # rest) 1 = rest"
proof -
  have "navigate_route \<lparr>pattern = RegexPat rx, handler = h\<rparr> (navigate_pathname this pathname) =
        Inr (Some (Handler h (Hash (split_on CHR ''/'' stripped))))"
    using assms(4) by (simp add: navigate_route_def stripped_def)
  from navigate_first_match[OF assms(2,3) this]
  have nav: "navigate this pathname =
           Inr (navigate_hook this pathname @ [Handler h (Hash (split_on CHR ''/'' stripped))])" .
  have uniq: "split_on CHR ''/'' stripped = segments"
    if "segments \<noteq> [] \<and> (\<forall>w\<in>set segments. CHR ''/'' \<notin> set w) \<and>
        join_on CHR ''/'' segments = stripped" for segments
    using that split_on_join_on[of segments "CHR ''/''"] by auto
  show ?thesis
    using nav uniq split_on_no_sep[of _ "CHR ''/''" stripped]
    by (auto simp: join_on_split_on substring_from_def)
qed

text \<open>
  The pattern \<open>^post-(\d+)$\<close> on the path \<open>/post-7\<close>, before a pattern that matches
  all; and that second pattern on a path of four segments, one of them empty.
\<close>

theorem regex_route_witness:
  "navigate
     \<lparr>routes = [\<lparr>pattern = RegexPat post_regex, handler = (1::nat)\<rparr>,
                \<lparr>pattern = RegexPat (\<lambda>s. True), handler = 2\<rparr>],
      defaultRoute = ''/'', viewLocation = ''/views'', onnavigate = None\<rparr>
     (Str ''/post-7'') = Inr [Handler 1 (Hash [''post-7''])] \<and>
   navigate
     \<lparr>routes = [\<lparr>pattern = RegexPat post_regex, handler = (1::nat)\<rparr>,
                \<lparr>pattern = RegexPat (\<lambda>s. True), handler = 2\<rparr>],
      defaultRoute = ''/'', viewLocation = ''/views'', onnavigate = None\<rparr>
     (Str ''/docs/api//v2'') = Inr [Handler 2 (Hash [''docs'', ''api'', '''', ''v2''])]"
proof -
  let ?r1 = "\<lparr>pattern = RegexPat post_regex, handler = (1::nat)\<rparr>"
  let ?r2 = "\<lparr>pattern = RegexPat (\<lambda>s. True), handler = (2::nat)\<rparr>"
  let ?R = "\<lparr>routes = [?r1, ?r2], defaultRoute = ''/'', viewLocation = ''/views'',
             onnavigate = None\<rparr>"
  have a: "routes ?R = [] @ ?r1 # [?r2]" by simp
  have b: "\<forall>q\<in>set []. navigate_route q (navigate_pathname ?R (Str ''/post-7'')) = Inr None"
    by simp
  have c: "post_regex (substring_from (navigate_pathname ?R (Str ''/post-7'')) 1)"
    by (simp add: navigate_pathname_def substring_from_def post_regex_def)
  have a': "routes ?R = [?r1] @ ?r2 # []" by simp
  have b': "\<forall>q\<in>set [?r1]. navigate_route q (navigate_pathname ?R (Str ''/docs/api//v2'')) = Inr None"
    by (simp add: navigate_route_def navigate_pathname_def substring_from_def post_regex_def)
  have c': "(\<lambda>s. True) (substring_from (navigate_pathname ?R (Str ''/docs/api//v2'')) 1)"
    by simp
  show ?thesis
    using regex_route[OF a b c] regex_route[OF a' b' c']
    by (simp add: navigate_hook_def navigate_pathname_def substring_from_def)
qed

text \<open>
  Claim C10. The stripping is the removal of the first character, whatever it is: on the
  path \<open>c # cs\<close> the pattern is tested on \<open>cs\<close> and, when the route is reached and the
  test succeeds, the handler gets the \<open>hash\<close> made of \<open>cs\<close> split on \<open>/\<close>, also
  when \<open>c\<close> is not the separator. On the empty path there is nothing to remove.
\<close>

theorem regex_strips_first_char:
  assumes "routes this = pre @ \<lparr>pattern = RegexPat rx, handler = h\<rparr> # post"
    and "\<forall>q\<in>set pre. navigate_route q (navigate_pathname this pathname) = Inr None"
    and "navigate_pathname this pathname = c # cs"
  shows "navigate_route \<lparr>pattern = RegexPat rx, handler = h\<rparr> (c # cs) =
           Inr (if rx cs then Some (Handler h (Hash (split_on CHR ''/'' cs))) else None) \<and>
         (rx cs \<longrightarrow>
            navigate this pathname =
              Inr (navigate_hook this pathname @ [Handler h (Hash (split_on CHR ''/'' cs))])) \<and>
         navigate_route \<lparr>pattern = RegexPat rx, handler = h\<rparr> [] =
           Inr (if rx [] then Some (Handler h (Hash [[]])) else None)"
proof -
  have r: "navigate_route \<lparr>pattern = RegexPat rx, handler = h\<rparr> (c # cs) =
           Inr (if rx cs then Some (Handler h (Hash (split_on CHR ''/'' cs))) else None)"
    by (simp add: navigate_route_def substring_from_def)
  have "navigate this pathname =
          Inr (navigate_hook this pathname @ [Handler h (Hash (split_on CHR ''/'' cs))])"
    if "rx cs"
  proof (rule navigate_first_match[OF assms(1,2)])
    show "navigate_route \<lparr>pattern = RegexPat rx, handler = h\<rparr> (navigate_pathname this pathname) =
          Inr (Some (Handler h (Hash (split_on CHR ''/'' cs))))"
      using r that by (simp add: assms(3))
  qed
  moreover have "navigate_route \<lparr>pattern = RegexPat rx, handler = h\<rparr> [] =
           Inr (if rx [] then Some (Handler h (Hash [[]])) else None)"
    by (simp add: navigate_route_def substring_from_def)
  ultimately show ?thesis using r by blast
qed

text \<open>
  The path \<open>xpost-7\<close> does not start with the separator; its first character goes all
  the same, and \<open>^post-(\d+)$\<close> takes what is left.
\<close>

theorem regex_strips_first_char_witness:
  "navigate
     \<lparr>routes = [\<lparr>pattern = StrPat ''/about'', handler = (0::nat)\<rparr>,
                \<lparr>pattern = RegexPat post_regex, handler = 1\<rparr>],
      defaultRoute = ''/'', viewLocation = ''/views'', onnavigate = None\<rparr>
     (Str ''xpost-7'') = Inr [Handler 1 (Hash [''post-7''])]"
proof -
  let ?r0 = "\<lparr>pattern = StrPat ''/about'', handler = (0::nat)\<rparr>"
  let ?r1 = "\<lparr>pattern = RegexPat post_regex, handler = (1::nat)\<rparr>"
  let ?R = "\<lparr>routes = [?r0, ?r1], defaultRoute = ''/'', viewLocation = ''/views'',
             onnavigate = None\<rparr>"
  have path: "navigate_pathname ?R (Str ''xpost-7'') = CHR ''x'' # ''post-7''"
    by (simp add: navigate_pathname_def)
  have a: "routes ?R = [?r0] @ ?r1 # []" by simp
  have b: "\<forall>q\<in>set [?r0]. navigate_route q (navigate_pathname ?R (Str ''xpost-7'')) = Inr None"
    by code_simp
  have c: "post_regex ''post-7''" by (simp add: post_regex_def)
  show ?thesis
    using regex_strips_first_char[OF a b path] c by (simp add: navigate_hook_def)
qed

section \<open>The default path, totality and registration\<close>

text \<open>
  Claim C7. A path that is falsy (absent or empty) or equal to \<open>/\<close> is resolved as the
  default path is: after the call of the hook, which receives the path as given, the two
  runs have the same effects, that is the same handler called with the same argument, or
  the same fallback.
\<close>

theorem default_path:
  assumes "\<not> truthy pathname \<or> pathname = Str ''/''"
  shows "\<exists>es. navigate this pathname = Inr (navigate_hook this pathname @ es) \<and>
              navigate this (Str (defaultRoute this)) =
                Inr (navigate_hook this (Str (defaultRoute this)) @ es)"
proof -
  have p: "navigate_pathname this pathname = defaultRoute this"
    using assms by (cases pathname) (auto simp: navigate_pathname_def)
  have q: "navigate_pathname this (Str (defaultRoute this)) = defaultRoute this"
    by (simp add: navigate_pathname_def)
  obtain res where r: "navigate_routes (routes this) (defaultRoute this) = Inr res"
    using navigate_routes_total by blast
  show ?thesis
    by (cases res) (simp_all add: navigate_def p q r)
qed

text \<open>A call without path, on a router whose default path is \<open>/home\<close>.\<close>

theorem default_path_witness:
  "\<exists>es. navigate \<lparr>routes = [\<lparr>pattern = StrPat ''/home'', handler = (1::nat)\<rparr>],
            defaultRoute = ''/home'', viewLocation = ''/views'', onnavigate = Some 9\<rparr> Undefined
          = Inr (OnNavigate 9 Undefined # es) \<and>
        navigate \<lparr>routes = [\<lparr>pattern = StrPat ''/home'', handler = (1::nat)\<rparr>],
            defaultRoute = ''/home'', viewLocation = ''/views'', onnavigate = Some 9\<rparr> (Str ''/home'')
          = Inr (OnNavigate 9 (Str ''/home'') # es)"
proof -
  have a: "\<not> truthy Undefined \<or> Undefined = Str ''/''" by simp
  show ?thesis
    using default_path[OF a, of "\<lparr>routes = [\<lparr>pattern = StrPat ''/home'', handler = (1::nat)\<rparr>],
            defaultRoute = ''/home'', viewLocation = ''/views'', onnavigate = Some 9\<rparr>"]
    by (simp add: navigate_hook_def)
qed

text \<open>
  Claim C8. \<open>navigate\<close> returns for every router and path and never throws. When no route
  takes the path, no handler is called: the only effect after the hook is the fallback
  \<open>pushState\<close> to the default path. \<open>lowerCase\<close> gives \<open>undefined\<close> back unchanged, so
  that the comparison with a path segment that is missing does not throw.
\<close>

theorem navigate_never_raises:
  "(\<exists>es. navigate this pathname = Inr es) \<and>
   ((\<forall>q\<in>set (routes this). navigate_route q (navigate_pathname this pathname) = Inr None) \<longrightarrow>
      navigate this pathname =
        Inr (navigate_hook this pathname @ [PushState ''data'' ''home'' (defaultRoute this)]) \<and>
      filter is_Handler
        (navigate_hook this pathname @ [PushState ''data'' ''home'' (defaultRoute this)]) = []) \<and>
   lowerCase Undefined = Inr Undefined \<and>
   (length hashParts \<le> x \<longrightarrow> lowerCase (at_index hashParts x) = Inr Undefined)"
proof -
  obtain res where r: "navigate_routes (routes this) (navigate_pathname this pathname) = Inr res"
    using navigate_routes_total by blast
  have 1: "\<exists>es. navigate this pathname = Inr es"
    by (cases res) (simp_all add: navigate_def r)
  have 2: "lowerCase Undefined = Inr Undefined" by (simp add: lowerCase_def)
  show ?thesis
    using 1 2 navigate_no_match[of this pathname]
    by (auto simp: filter_navigate_hook at_index_def)
qed

text \<open>The only route is \<open>/a/:x\<close> and the path is \<open>/b\<close>.\<close>

theorem navigate_never_raises_witness:
  "navigate \<lparr>routes = [\<lparr>pattern = StrPat ''/a/:x'', handler = (1::nat)\<rparr>],
            defaultRoute = ''/'', viewLocation = ''/views'', onnavigate = None\<rparr> (Str ''/b'')
     = Inr [PushState ''data'' ''home'' ''/'']"
proof -
  let ?R = "\<lparr>routes = [\<lparr>pattern = StrPat ''/a/:x'', handler = (1::nat)\<rparr>],
            defaultRoute = ''/'', viewLocation = ''/views'', onnavigate = None\<rparr>"
  have a: "\<forall>q\<in>set (routes ?R). navigate_route q (navigate_pathname ?R (Str ''/b'')) = Inr None"
    by code_simp
  show ?thesis
    using navigate_never_raises[of ?R "Str ''/b''" "[]" 0] a
    by (simp add: navigate_hook_def)
qed

lemma routes_fold_route:
  "routes (fold (\<lambda>(pat, h) r. route r pat h) regs this) =
   routes this @ map (\<lambda>(pat, h). \<lparr>pattern = pat, handler = h\<rparr>) regs"
proof (induction regs arbitrary: this)
  case Nil
  show ?case by simp
next
  case (Cons reg regs)
  obtain pat h where reg: "reg = (pat, h)" by (cases reg)
  have "routes (fold (\<lambda>(pat, h) r. route r pat h) regs (route this pat h)) =
        routes (route this pat h) @ map (\<lambda>(pat, h). \<lparr>pattern = pat, handler = h\<rparr>) regs"
    by (rule Cons.IH)
  then show ?case by (simp add: reg route_def)
qed

text \<open>
  Claim C9. \<open>route\<close> adds the pair of the pattern and the handler at the end of the
  routes, for any pattern, without looking at it; the routes that were there stay, in
  their order, and the other fields of the router are unchanged. Hence a sequence of
  registrations leaves the routes in the order of registration, after the former ones.
\<close>

theorem route_appends:
  "routes (route this pat h) = routes this @ [\<lparr>pattern = pat, handler = h\<rparr>] \<and>
   length (routes (route this pat h)) = Suc (length (routes this)) \<and>
   take (length (routes this)) (routes (route this pat h)) = routes this \<and>
   defaultRoute (route this pat h) = defaultRoute this \<and>
   viewLocation (route this pat h) = viewLocation this \<and>
   onnavigate (route this pat h) = onnavigate this \<and>
   routes (fold (\<lambda>(pat, h) r. route r pat h) regs this) =
     routes this @ map (\<lambda>(pat, h). \<lparr>pattern = pat, handler = h\<rparr>) regs"
proof -
  have one: "routes (route this pat h) = routes this @ [\<lparr>pattern = pat, handler = h\<rparr>]"
    by (simp add: route_def)
  have rest: "defaultRoute (route this pat h) = defaultRoute this"
    "viewLocation (route this pat h) = viewLocation this"
    "onnavigate (route this pat h) = onnavigate this"
    by (simp_all add: route_def)
  show ?thesis
    unfolding one using rest by (simp add: routes_fold_route)
qed

end
